theory Spec2Isabelle
  imports Main "HOL-Library.Char_ord" "HOL-Library.List_Lexorder" "HOL-Library.AList"
begin

section \<open>Data model of package jj (internal/jj/bookmark.go)\<close>

text \<open>Go strings are byte sequences; they are modelled as \<open>string\<close> (a list of bytes).
  Go's \<open>int\<close> is modelled as \<open>int\<close>: the embedded code only compares the counters
  with zero, increments and decrements them by one, far from the 64-bit bounds.\<close>

datatype SyncState =
  SyncUnknown | SyncInSync | SyncAhead | SyncBehind | SyncDiverged | SyncLocalOnly | SyncRemoteOnly

record RemoteBookmarkState =
  rs_Target :: string
  rs_Tracked :: bool
  rs_Ahead :: int
  rs_Behind :: int

record BookmarkInfo =
  bi_Name :: string
  bi_Target :: string
  bi_ChangeID :: string
  bi_Present :: bool
  bi_Conflict :: bool
  bi_Remotes :: "string \<rightharpoonup> RemoteBookmarkState"

text \<open>\<open>SyncWith\<close>: the branches in the order of the source.\<close>

definition SyncWith :: "BookmarkInfo \<Rightarrow> string \<Rightarrow> SyncState" where
  "SyncWith b remote =
     (if bi_Conflict b then SyncDiverged
      else case bi_Remotes b remote of
        None \<Rightarrow> (if bi_Present b then SyncLocalOnly else SyncUnknown)
      | Some rs \<Rightarrow>
          if \<not> bi_Present b then SyncRemoteOnly
          else if rs_Ahead rs > 0 \<and> rs_Behind rs > 0 then SyncDiverged
          else if rs_Behind rs > 0 then SyncAhead
          else if rs_Ahead rs > 0 then SyncBehind
          else SyncInSync)"

definition bm_example :: BookmarkInfo where
  "bm_example = \<lparr> bi_Name = ''feature'', bi_Target = ''c1'', bi_ChangeID = ''k1'',
      bi_Present = True, bi_Conflict = False,
      bi_Remotes = [''origin'' \<mapsto>
        \<lparr> rs_Target = ''c0'', rs_Tracked = True, rs_Ahead = 0, rs_Behind = 2 \<rparr>] \<rparr>"

section \<open>Canonical bookmark names (internal/jj/bookmark.go)\<close>

text \<open>\<open>conventionalPrefixRe\<close> is \<^verbatim>\<open>^[a-zA-Z]+(\([^)]*\))?!?:\s*\<close>. Every quantifier of it is
  followed by a character outside the class it repeats, so the leftmost-first match of the
  regexp engine is the greedy one computed below; Go's \<^verbatim>\<open>\s\<close> is tab, newline, form feed,
  carriage return and space. \<open>matchConventionalPrefix\<close> returns the text after the match.
  \<open>nonAlnumRe\<close> is \<^verbatim>\<open>[^a-z0-9]+\<close>: \<open>replaceNonAlnum\<close> replaces every maximal run of other
  bytes by one hyphen. \<open>strings.ToLower\<close> consults the Unicode tables of the Go library; it is a
  parameter of \<open>slugify\<close>, and \<open>asciiLower\<close> is its restriction to ASCII input.\<close>

definition isLetter :: "char \<Rightarrow> bool" where
  "isLetter c = (c \<in> set ''abcdefghijklmnopqrstuvwxyzABCDEFGHIJKLMNOPQRSTUVWXYZ'')"

definition isReSpace :: "char \<Rightarrow> bool" where
  "isReSpace c = (c \<in> {CHR 0x09, CHR 0x0A, CHR 0x0C, CHR 0x0D, CHR '' ''})"

definition isLowerAlnum :: "char \<Rightarrow> bool" where
  "isLowerAlnum c = (c \<in> set ''abcdefghijklmnopqrstuvwxyz0123456789'')"

definition matchConventionalPrefix :: "string \<Rightarrow> string option" where
  "matchConventionalPrefix s =
     (let letters = takeWhile isLetter s; r1 = dropWhile isLetter s in
      if letters = [] then None
      else
        let r2 = (case r1 of
                    c # inner \<Rightarrow>
                      if c = CHR ''('' then
                        (case dropWhile (\<lambda>x. x \<noteq> CHR '')'') inner of
                           [] \<Rightarrow> r1
                         | _ # after \<Rightarrow> after)
                      else r1
                  | [] \<Rightarrow> r1);
            r3 = (case r2 of c # r \<Rightarrow> if c = CHR ''!'' then r else r2 | [] \<Rightarrow> r2)
        in case r3 of
             c # r \<Rightarrow> if c = CHR '':'' then Some (dropWhile isReSpace r) else None
           | [] \<Rightarrow> None)"

definition stripConventionalPrefix :: "string \<Rightarrow> string" where
  "stripConventionalPrefix s = (case matchConventionalPrefix s of Some r \<Rightarrow> r | None \<Rightarrow> s)"

function replaceNonAlnum :: "string \<Rightarrow> string" where
  "replaceNonAlnum [] = []"
| "replaceNonAlnum (c # cs) =
     (if isLowerAlnum c then c # replaceNonAlnum cs
      else CHR ''-'' # replaceNonAlnum (dropWhile (\<lambda>x. \<not> isLowerAlnum x) cs))"
  by pat_completeness auto
termination
  by (relation "measure length") (auto simp: length_dropWhile_le less_Suc_eq_le)

definition trimHyphens :: "string \<Rightarrow> string" where
  "trimHyphens s =
     rev (dropWhile (\<lambda>x. x = CHR ''-'') (rev (dropWhile (\<lambda>x. x = CHR ''-'') s)))"

definition LastIndex :: "string \<Rightarrow> char \<Rightarrow> int" where
  "LastIndex s c =
     (if c \<in> set s then int (length s) - 1 - int (length (takeWhile (\<lambda>x. x \<noteq> c) (rev s)))
      else - 1)"

definition maxSlugLen :: nat where "maxSlugLen = 30"

definition slugify :: "(string \<Rightarrow> string) \<Rightarrow> string \<Rightarrow> string" where
  "slugify ToLower s0 =
     (let s1 = stripConventionalPrefix s0;
          s2 = ToLower s1;
          s3 = replaceNonAlnum s2;
          s4 = trimHyphens s3
      in if length s4 > maxSlugLen then
           (let s5 = take maxSlugLen s4; i = LastIndex s5 (CHR ''-'')
            in if i > int (maxSlugLen div 2) then take (nat i) s5 else s5)
         else s4)"

definition GenerateBookmarkName :: "(string \<Rightarrow> string) \<Rightarrow> string \<Rightarrow> string \<Rightarrow> string" where
  "GenerateBookmarkName ToLower description shortChangeID =
     (let slug = slugify ToLower description;
          slug' = (if slug = [] then ''change'' else slug)
      in ''jip/'' @ slug' @ ''/'' @ shortChangeID)"

definition asciiLower :: "string \<Rightarrow> string" where
  "asciiLower s = map (\<lambda>c. if CHR ''A'' \<le> c \<and> c \<le> CHR ''Z'' then char_of (of_char c + (32::nat)) else c) s"


definition noDoubleHyphen :: "string \<Rightarrow> bool" where
  "noDoubleHyphen s = (\<forall>i. Suc i < length s \<longrightarrow> s ! i \<noteq> CHR ''-'' \<or> s ! Suc i \<noteq> CHR ''-'')"

definition slugChar :: "char \<Rightarrow> bool" where
  "slugChar c = (isLowerAlnum c \<or> c = CHR ''-'')"


section \<open>Interdiff comments (internal/github/prbody.go)\<close>

text \<open>The helpers of Go's \<open>strings\<close> package that \<open>prbody.go\<close> calls, on byte strings:
  \<open>Split\<close> on a one-byte separator (never an empty result), \<open>Cut\<close> for \<open>SplitN(s, sep, 2)\<close>,
  \<open>TrimRight\<close> for a one-byte cutset, and \<open>TrimSpace\<close>, which removes the UTF-8 encodings of
  the code points for which \<open>unicode.IsSpace\<close> holds (\<open>spaceRunes\<close>) from both ends.
  \<open>natToDec\<close> is the \<^verbatim>\<open>%d\<close> verb on a non-negative count.\<close>

definition collapseThreshold :: nat where "collapseThreshold = 20"

definition nl :: string where "nl = [CHR 0x0A]"

definition HasPrefix :: "string \<Rightarrow> string \<Rightarrow> bool" where
  "HasPrefix s p = (take (length p) s = p)"

fun Split :: "string \<Rightarrow> char \<Rightarrow> string list" where
  "Split [] sep = [[]]"
| "Split (x # xs) sep =
     (if x = sep then [] # Split xs sep
      else (case Split xs sep of l # ls \<Rightarrow> (x # l) # ls | [] \<Rightarrow> [[x]]))"

fun Cut :: "string \<Rightarrow> string \<Rightarrow> (string \<times> string) option" where
  "Cut [] sep = (if sep = [] then Some ([], []) else None)"
| "Cut (x # xs) sep =
     (if HasPrefix (x # xs) sep then Some ([], drop (length sep) (x # xs))
      else map_option (\<lambda>(a, b). (x # a, b)) (Cut xs sep))"

definition TrimRight :: "string \<Rightarrow> char \<Rightarrow> string" where
  "TrimRight s c = rev (dropWhile (\<lambda>x. x = c) (rev s))"

definition spaceRunes :: "string list" where
  "spaceRunes =
     [[CHR 0x09], [CHR 0x0A], [CHR 0x0B], [CHR 0x0C], [CHR 0x0D], [CHR 0x20],
      [CHR 0xC2, CHR 0x85], [CHR 0xC2, CHR 0xA0], [CHR 0xE1, CHR 0x9A, CHR 0x80],
      [CHR 0xE2, CHR 0x80, CHR 0x80], [CHR 0xE2, CHR 0x80, CHR 0x81],
      [CHR 0xE2, CHR 0x80, CHR 0x82], [CHR 0xE2, CHR 0x80, CHR 0x83],
      [CHR 0xE2, CHR 0x80, CHR 0x84], [CHR 0xE2, CHR 0x80, CHR 0x85],
      [CHR 0xE2, CHR 0x80, CHR 0x86], [CHR 0xE2, CHR 0x80, CHR 0x87],
      [CHR 0xE2, CHR 0x80, CHR 0x88], [CHR 0xE2, CHR 0x80, CHR 0x89],
      [CHR 0xE2, CHR 0x80, CHR 0x8A], [CHR 0xE2, CHR 0x80, CHR 0xA8],
      [CHR 0xE2, CHR 0x80, CHR 0xA9], [CHR 0xE2, CHR 0x80, CHR 0xAF],
      [CHR 0xE2, CHR 0x81, CHR 0x9F], [CHR 0xE3, CHR 0x80, CHR 0x80]]"

definition spacePrefixLen :: "string \<Rightarrow> nat" where
  "spacePrefixLen s = (case filter (HasPrefix s) spaceRunes of [] \<Rightarrow> 0 | p # _ \<Rightarrow> length p)"

lemma spacePrefixLen_le: "spacePrefixLen s \<le> length s"
proof (cases "filter (HasPrefix s) spaceRunes")
  case Nil
  then show ?thesis by (simp add: spacePrefixLen_def)
next
  case (Cons p ps)
  then have "p \<in> set (filter (HasPrefix s) spaceRunes)" by simp
  then have "take (length p) s = p" by (simp add: HasPrefix_def)
  then have "length p \<le> length s" by (metis length_take min.cobounded1)
  with Cons show ?thesis by (simp add: spacePrefixLen_def)
qed

function TrimLeftSpace :: "string \<Rightarrow> string" where
  "TrimLeftSpace s =
     (if spacePrefixLen s = 0 then s else TrimLeftSpace (drop (spacePrefixLen s) s))"
  by pat_completeness auto
termination
proof (relation "measure length")
  show "wf (measure length)" by simp
next
  fix s :: string
  assume "spacePrefixLen s \<noteq> 0"
  moreover have "spacePrefixLen s \<le> length s" by (rule spacePrefixLen_le)
  ultimately show "(drop (spacePrefixLen s) s, s) \<in> measure length" by simp
qed

definition HasSuffix :: "string \<Rightarrow> string \<Rightarrow> bool" where
  "HasSuffix s p = (length p \<le> length s \<and> drop (length s - length p) s = p)"

definition spaceSuffixLen :: "string \<Rightarrow> nat" where
  "spaceSuffixLen s = (case filter (HasSuffix s) spaceRunes of [] \<Rightarrow> 0 | p # _ \<Rightarrow> length p)"

lemma spaceSuffixLen_le: "spaceSuffixLen s \<le> length s"
proof (cases "filter (HasSuffix s) spaceRunes")
  case Nil
  then show ?thesis by (simp add: spaceSuffixLen_def)
next
  case (Cons p ps)
  then have "p \<in> set (filter (HasSuffix s) spaceRunes)" by simp
  then have "length p \<le> length s" by (simp add: HasSuffix_def)
  with Cons show ?thesis by (simp add: spaceSuffixLen_def)
qed

function TrimRightSpace :: "string \<Rightarrow> string" where
  "TrimRightSpace s =
     (if spaceSuffixLen s = 0 then s else TrimRightSpace (take (length s - spaceSuffixLen s) s))"
  by pat_completeness auto
termination
proof (relation "measure length")
  show "wf (measure length)" by simp
next
  fix s :: string
  assume "spaceSuffixLen s \<noteq> 0"
  moreover have "spaceSuffixLen s \<le> length s" by (rule spaceSuffixLen_le)
  ultimately show "(take (length s - spaceSuffixLen s) s, s) \<in> measure length" by simp
qed

definition TrimSpace :: "string \<Rightarrow> string" where
  "TrimSpace s = TrimRightSpace (TrimLeftSpace s)"

function natToDec :: "nat \<Rightarrow> string" where
  "natToDec n =
     (if n < 10 then [char_of (48 + n)] else natToDec (n div 10) @ [char_of (48 + n mod 10)])"
  by pat_completeness auto
termination
  by (relation "measure id") auto

text \<open>\<open>parseGitDiff\<close>: the loop over the lines carries the finished sections and the
  section being read (\<open>current\<close>, \<open>nil\<close> before the first \<open>diff --git\<close> line).\<close>

record fileDiff =
  fd_header :: string
  fd_body :: string

fun parseGitDiff_loop :: "string list \<Rightarrow> fileDiff list \<Rightarrow> fileDiff option \<Rightarrow> fileDiff list" where
  "parseGitDiff_loop [] files current =
     (case current of
        None \<Rightarrow> files
      | Some c \<Rightarrow> files @ [c\<lparr>fd_body := TrimRight (fd_body c) (CHR 0x0A)\<rparr>])"
| "parseGitDiff_loop (line # rest) files current =
     (if HasPrefix line ''diff --git '' then
        (let files' = (case current of
                         None \<Rightarrow> files
                       | Some c \<Rightarrow> files @ [c\<lparr>fd_body := TrimRight (fd_body c) (CHR 0x0A)\<rparr>]);
             header = (case Cut line '' b/'' of Some (before, after) \<Rightarrow> after | None \<Rightarrow> line)
         in parseGitDiff_loop rest files' (Some \<lparr>fd_header = header, fd_body = []\<rparr>))
      else
        (case current of
           None \<Rightarrow> parseGitDiff_loop rest files None
         | Some c \<Rightarrow> parseGitDiff_loop rest files (Some (c\<lparr>fd_body := fd_body c @ line @ nl\<rparr>))))"

definition parseGitDiff :: "string \<Rightarrow> fileDiff list" where
  "parseGitDiff diff = parseGitDiff_loop (Split diff (CHR 0x0A)) [] None"

fun diffStats_loop :: "string list \<Rightarrow> nat \<times> nat \<Rightarrow> nat \<times> nat" where
  "diffStats_loop [] (added, removed) = (added, removed)"
| "diffStats_loop (line # rest) (added, removed) =
     (if HasPrefix line ''+'' \<and> \<not> HasPrefix line ''+++'' then diffStats_loop rest (added + 1, removed)
      else if HasPrefix line ''-'' \<and> \<not> HasPrefix line ''---'' then diffStats_loop rest (added, removed + 1)
      else diffStats_loop rest (added, removed))"

definition diffStats :: "string \<Rightarrow> nat \<times> nat" where
  "diffStats chunk = diffStats_loop (Split chunk (CHR 0x0A)) (0, 0)"

definition minInt :: "nat \<Rightarrow> nat \<Rightarrow> nat" where
  "minInt a b = (if a < b then a else b)"

definition rangeDiffFooter :: "string \<Rightarrow> string \<Rightarrow> string \<Rightarrow> string \<Rightarrow> string" where
  "rangeDiffFooter repoName baseBranch oldCommit newCommit =
     (if oldCommit = [] \<or> newCommit = [] \<or> repoName = [] then []
      else
        let oldShort = take (minInt 7 (length oldCommit)) oldCommit;
            newShort = take (minInt 7 (length newCommit)) newCommit;
            compareURL = ''https://github.com/'' @ repoName @ ''/compare/'' @ oldCommit @ ''..'' @ newCommit
        in nl @ ''---'' @ nl @ ''<sub>View the diff on [GitHub]('' @ compareURL @ '') ''
           @ ''(may include unrelated changes due to rebases since GitHub does not currently implement `git range-diff`).'' @ nl
           @ ''View the diff locally (will only work if you fetched the older commit at some point):'' @ nl
           @ ''`git range-diff '' @ baseBranch @ '' '' @ oldShort @ '' '' @ newShort @ ''`'' @ nl
           @ ''`jj interdiff -f '' @ oldShort @ '' -t '' @ newShort @ ''`'' @ nl
           @ ''</sub>'' @ nl)"

text \<open>\<open>BuildDiffComment\<close>: \<open>totalLines\<close> is the first loop (the sum of the lengths of the
  split bodies), \<open>renderFile\<close> the \<open>Fprintf\<close> of the second loop, appended to the builder.\<close>

definition totalLines :: "fileDiff list \<Rightarrow> nat" where
  "totalLines files = fold (\<lambda>f n. n + length (Split (fd_body f) (CHR 0x0A))) files 0"

definition renderFile :: "bool \<Rightarrow> fileDiff \<Rightarrow> string" where
  "renderFile expand f =
     (case diffStats (fd_body f) of (added, removed) \<Rightarrow>
        let openAttr = (if expand then '' open'' else [])
        in nl @ ''<details'' @ openAttr @ ''>'' @ nl
           @ ''<summary><code>'' @ fd_header f @ ''</code> (+'' @ natToDec added @ '', -''
           @ natToDec removed @ '')</summary>'' @ nl @ nl
           @ ''```diff'' @ nl @ fd_body f @ nl @ ''```'' @ nl @ nl @ ''</details>'' @ nl)"

definition BuildDiffComment :: "string \<Rightarrow> string \<Rightarrow> string \<Rightarrow> string \<Rightarrow> string \<Rightarrow> string" where
  "BuildDiffComment codeDiff repoName baseBranch oldCommit newCommit =
     (let footer = rangeDiffFooter repoName baseBranch oldCommit newCommit in
      if TrimSpace codeDiff = [] then
        ''### Changes since last push'' @ nl @ nl
        @ ''**No code changes** (likely just a rebase).'' @ nl @ footer
      else
        let files = parseGitDiff codeDiff;
            expand = (totalLines files \<le> collapseThreshold)
        in ''### Changes since last push'' @ nl
           @ fold (\<lambda>f b. b @ renderFile expand f) files []
           @ footer)"

text \<open>The quantity of the specification: the added and removed lines that \<open>diffStats\<close> counts
  (lines starting with \<open>+\<close> or \<open>-\<close>, the \<open>+++\<close> and \<open>---\<close> headers excluded), summed over the
  sections. \<open>diff_small_change\<close> is a one-file diff of a hunk header, 19 context lines and one
  added line.\<close>

definition changedLines :: "string \<Rightarrow> nat" where
  "changedLines codeDiff =
     fold (\<lambda>f n. n + fst (diffStats (fd_body f)) + snd (diffStats (fd_body f)))
       (parseGitDiff codeDiff) 0"

definition ctx :: string where "ctx = '' x'' @ nl"

definition diff_small_change :: string where
  "diff_small_change = ''diff --git a/f.go b/f.go'' @ nl @ ''@@ -1,20 +1,21 @@'' @ nl
     @ concat (replicate 19 ctx) @ ''+y''"


section \<open>Sync state classification\<close>

text \<open>Claim C6. \<open>SyncWith\<close> decides in the order of the specification: a conflicted
  bookmark is diverged; otherwise, without an entry for the remote, it is local-only when present
  and unknown when not; with an entry but not present it is remote-only; with ahead and behind both
  positive it is diverged; with only behind positive it is ahead; with only ahead positive it is
  behind; otherwise it is in sync. With an entry for the remote the result is never unknown.\<close>

theorem SyncWith_order:
  "(bi_Conflict b \<longrightarrow> SyncWith b remote = SyncDiverged) \<and>
   (\<not> bi_Conflict b \<and> bi_Remotes b remote = None \<longrightarrow>
      SyncWith b remote = (if bi_Present b then SyncLocalOnly else SyncUnknown)) \<and>
   (\<not> bi_Conflict b \<and> bi_Remotes b remote = Some rs \<and> \<not> bi_Present b \<longrightarrow>
      SyncWith b remote = SyncRemoteOnly) \<and>
   (\<not> bi_Conflict b \<and> bi_Remotes b remote = Some rs \<and> bi_Present b \<and>
      rs_Ahead rs > 0 \<and> rs_Behind rs > 0 \<longrightarrow> SyncWith b remote = SyncDiverged) \<and>
   (\<not> bi_Conflict b \<and> bi_Remotes b remote = Some rs \<and> bi_Present b \<and>
      \<not> rs_Ahead rs > 0 \<and> rs_Behind rs > 0 \<longrightarrow> SyncWith b remote = SyncAhead) \<and>
   (\<not> bi_Conflict b \<and> bi_Remotes b remote = Some rs \<and> bi_Present b \<and>
      rs_Ahead rs > 0 \<and> \<not> rs_Behind rs > 0 \<longrightarrow> SyncWith b remote = SyncBehind) \<and>
   (\<not> bi_Conflict b \<and> bi_Remotes b remote = Some rs \<and> bi_Present b \<and>
      \<not> rs_Ahead rs > 0 \<and> \<not> rs_Behind rs > 0 \<longrightarrow> SyncWith b remote = SyncInSync) \<and>
   (bi_Remotes b remote = Some rs \<longrightarrow> SyncWith b remote \<noteq> SyncUnknown)"
  by (simp add: SyncWith_def)

theorem SyncWith_order_witness:
  "\<not> bi_Conflict bm_example \<and>
   bi_Remotes bm_example ''origin'' =
     Some \<lparr> rs_Target = ''c0'', rs_Tracked = True, rs_Ahead = 0, rs_Behind = 2 \<rparr> \<and>
   bi_Present bm_example \<and>
   SyncWith bm_example ''origin'' = SyncAhead \<and>
   SyncWith bm_example ''origin'' \<noteq> SyncUnknown \<and>
   bi_Remotes bm_example ''upstream'' = None \<and>
   SyncWith bm_example ''upstream'' = SyncLocalOnly"
  using SyncWith_order [of bm_example "''origin''"
      "\<lparr> rs_Target = ''c0'', rs_Tracked = True, rs_Ahead = 0, rs_Behind = 2 \<rparr>"]
    SyncWith_order [of bm_example "''upstream''"
      "\<lparr> rs_Target = ''c0'', rs_Tracked = True, rs_Ahead = 0, rs_Behind = 2 \<rparr>"]
  by (simp add: bm_example_def)

section \<open>Bookmark name generation\<close>

lemma hyphen_not_alnum: "\<not> isLowerAlnum (CHR ''-'')"
  by (simp add: isLowerAlnum_def)

lemma replaceNonAlnum_chars: "\<forall>c \<in> set (replaceNonAlnum s). slugChar c"
  by (induction s rule: replaceNonAlnum.induct) (auto simp: slugChar_def)

lemma replaceNonAlnum_hd:
  "s \<noteq> [] \<Longrightarrow> isLowerAlnum (hd s) \<Longrightarrow> replaceNonAlnum s \<noteq> [] \<and> hd (replaceNonAlnum s) = hd s"
  by (cases s) auto

lemma noDoubleHyphen_Cons:
  "noDoubleHyphen (a # s) = ((s \<noteq> [] \<longrightarrow> a \<noteq> CHR ''-'' \<or> hd s \<noteq> CHR ''-'') \<and> noDoubleHyphen s)"
proof (cases s)
  case Nil
  then show ?thesis by (simp add: noDoubleHyphen_def)
next
  case (Cons b t)
  show ?thesis
  proof
    assume h: "noDoubleHyphen (a # s)"
    have "a \<noteq> CHR ''-'' \<or> hd s \<noteq> CHR ''-''"
      using h Cons unfolding noDoubleHyphen_def by (auto dest: spec [of _ 0])
    moreover have "noDoubleHyphen s"
      unfolding noDoubleHyphen_def
    proof (intro allI impI)
      fix i assume "Suc i < length s"
      then have "Suc (Suc i) < length (a # s)" by simp
      with h have "(a # s) ! Suc i \<noteq> CHR ''-'' \<or> (a # s) ! Suc (Suc i) \<noteq> CHR ''-''"
        unfolding noDoubleHyphen_def by blast
      then show "s ! i \<noteq> CHR ''-'' \<or> s ! Suc i \<noteq> CHR ''-''" by simp
    qed
    ultimately show "(s \<noteq> [] \<longrightarrow> a \<noteq> CHR ''-'' \<or> hd s \<noteq> CHR ''-'') \<and> noDoubleHyphen s"
      by simp
  next
    assume h: "(s \<noteq> [] \<longrightarrow> a \<noteq> CHR ''-'' \<or> hd s \<noteq> CHR ''-'') \<and> noDoubleHyphen s"
    show "noDoubleHyphen (a # s)"
      unfolding noDoubleHyphen_def
    proof (intro allI impI)
      fix i assume i: "Suc i < length (a # s)"
      show "(a # s) ! i \<noteq> CHR ''-'' \<or> (a # s) ! Suc i \<noteq> CHR ''-''"
      proof (cases i)
        case 0
        then show ?thesis using h Cons by auto
      next
        case (Suc j)
        then have "Suc j < length s" using i by simp
        with h have "s ! j \<noteq> CHR ''-'' \<or> s ! Suc j \<noteq> CHR ''-''"
          unfolding noDoubleHyphen_def by blast
        then show ?thesis using Suc by simp
      qed
    qed
  qed
qed

lemma noDoubleHyphen_Nil: "noDoubleHyphen []"
  by (simp add: noDoubleHyphen_def)

lemma replaceNonAlnum_noDouble: "noDoubleHyphen (replaceNonAlnum s)"
proof (induction s rule: replaceNonAlnum.induct)
  case 1
  then show ?case by (simp add: noDoubleHyphen_Nil)
next
  case (2 c cs)
  show ?case
  proof (cases "isLowerAlnum c")
    case True
    then have "c \<noteq> CHR ''-''" using hyphen_not_alnum by auto
    with True 2 show ?thesis by (simp add: noDoubleHyphen_Cons)
  next
    case False
    let ?d = "dropWhile (\<lambda>x. \<not> isLowerAlnum x) cs"
    have ih: "noDoubleHyphen (replaceNonAlnum ?d)" using 2 False by simp
    have "replaceNonAlnum ?d \<noteq> [] \<longrightarrow> hd (replaceNonAlnum ?d) \<noteq> CHR ''-''"
    proof (cases ?d)
      case Nil
      then have "replaceNonAlnum ?d = []" by (simp only: replaceNonAlnum.simps)
      then show ?thesis by blast
    next
      case (Cons x xs)
      then have "isLowerAlnum (hd ?d)" using hd_dropWhile [of "\<lambda>x. \<not> isLowerAlnum x" cs] by auto
      then show ?thesis using replaceNonAlnum_hd [of ?d] Cons hyphen_not_alnum by auto
    qed
    with ih False show ?thesis by (simp add: noDoubleHyphen_Cons)
  qed
qed

lemma noDoubleHyphen_take: "noDoubleHyphen s \<Longrightarrow> noDoubleHyphen (take n s)"
  unfolding noDoubleHyphen_def by auto

lemma noDoubleHyphen_rev: "noDoubleHyphen s \<Longrightarrow> noDoubleHyphen (rev s)"
  unfolding noDoubleHyphen_def
proof (intro allI impI)
  fix i assume a: "\<forall>i. Suc i < length s \<longrightarrow> s ! i \<noteq> CHR ''-'' \<or> s ! Suc i \<noteq> CHR ''-''"
    and i: "Suc i < length (rev s)"
  let ?j = "length s - Suc (Suc i)"
  have j: "Suc ?j < length s" using i by simp
  have "rev s ! i = s ! Suc ?j" using i by (simp add: rev_nth Suc_diff_Suc)
  moreover have "rev s ! Suc i = s ! ?j" using i by (simp add: rev_nth)
  ultimately show "rev s ! i \<noteq> CHR ''-'' \<or> rev s ! Suc i \<noteq> CHR ''-''"
    using a j by auto
qed

lemma noDoubleHyphen_dropWhile: "noDoubleHyphen s \<Longrightarrow> noDoubleHyphen (dropWhile P s)"
  by (induction s) (auto simp: noDoubleHyphen_Cons)

lemma trimHyphens_noDouble: "noDoubleHyphen s \<Longrightarrow> noDoubleHyphen (trimHyphens s)"
  by (simp add: trimHyphens_def noDoubleHyphen_rev noDoubleHyphen_dropWhile)

lemma trimHyphens_chars: "set (trimHyphens s) \<subseteq> set s"
proof
  fix x assume "x \<in> set (trimHyphens s)"
  then have "x \<in> set (dropWhile (\<lambda>x. x = CHR ''-'') (rev (dropWhile (\<lambda>x. x = CHR ''-'') s)))"
    by (simp add: trimHyphens_def)
  then have "x \<in> set (rev (dropWhile (\<lambda>x. x = CHR ''-'') s))" by (rule set_dropWhileD)
  then have "x \<in> set (dropWhile (\<lambda>x. x = CHR ''-'') s)" by simp
  then show "x \<in> set s" by (rule set_dropWhileD)
qed

lemma trimHyphens_ends:
  "trimHyphens s \<noteq> [] \<Longrightarrow> hd (trimHyphens s) \<noteq> CHR ''-'' \<and> last (trimHyphens s) \<noteq> CHR ''-''"
proof -
  assume ne: "trimHyphens s \<noteq> []"
  define a where "a = dropWhile (\<lambda>x. x = CHR ''-'') s"
  define b where "b = dropWhile (\<lambda>x. x = CHR ''-'') (rev a)"
  have t: "trimHyphens s = rev b" by (simp only: trimHyphens_def a_def b_def)
  have b: "b \<noteq> []" using ne t by simp
  then have hb: "hd b \<noteq> CHR ''-''"
    unfolding b_def using hd_dropWhile [of "\<lambda>x. x = CHR ''-''" "rev a"] by blast
  have l: "last (rev b) \<noteq> CHR ''-''"
    using b hb by (simp add: last_rev)
  have a: "a \<noteq> []"
  proof
    assume "a = []"
    then have "b = []" by (simp add: b_def)
    with b show False by blast
  qed
  then have ha: "hd a \<noteq> CHR ''-''"
    unfolding a_def using hd_dropWhile [of "\<lambda>x. x = CHR ''-''" s] by blast
  define k where "k = length (takeWhile (\<lambda>x. x = CHR ''-'') (rev a))"
  have k: "b = drop k (rev a)"
    unfolding k_def b_def by (rule dropWhile_eq_drop)
  have rb: "rev b = take (length a - k) a"
    by (simp only: k rev_drop rev_rev_ident length_rev)
  have "drop k (rev a) \<noteq> []" using b k by simp
  then have pos: "length a - k > 0" by simp
  obtain x xs where ax: "a = x # xs" using a by (cases a) blast+
  obtain m where m: "length a - k = Suc m" using pos by (cases "length a - k") simp_all
  have "rev b = take (Suc m) a" by (simp only: rb m)
  then have "rev b = x # take m xs" by (simp only: ax take_Suc_Cons)
  then have "hd (rev b) = hd a" by (simp only: ax list.sel)
  then show ?thesis using l ha t by simp
qed

lemma LastIndex_absent: "c \<notin> set s \<Longrightarrow> LastIndex s c = - 1"
  by (simp add: LastIndex_def)

lemma LastIndex_present:
  assumes "c \<in> set s"
  shows "0 \<le> LastIndex s c \<and> nat (LastIndex s c) < length s \<and> s ! nat (LastIndex s c) = c"
proof -
  let ?k = "length (takeWhile (\<lambda>x. x \<noteq> c) (rev s))"
  have "takeWhile (\<lambda>x. x \<noteq> c) (rev s) \<noteq> rev s"
    using assms by (auto simp: takeWhile_eq_all_conv)
  then have "?k \<noteq> length (rev s)"
    by (metis takeWhile_eq_take take_all order_refl)
  then have k: "?k < length (rev s)"
    using length_takeWhile_le [of "\<lambda>x. x \<noteq> c" "rev s"] by linarith
  have "rev s ! ?k = c" using nth_length_takeWhile [OF k] by simp
  then have "s ! (length s - Suc ?k) = c" using k by (simp add: rev_nth)
  moreover have "LastIndex s c = int (length s - Suc ?k)" using k assms by (simp add: LastIndex_def)
  moreover have "length s - Suc ?k < length s" using k by simp
  ultimately show ?thesis by (simp only: nat_int of_nat_0_le_iff simp_thms)
qed

lemma LastIndex_last: "s \<noteq> [] \<Longrightarrow> last s = c \<Longrightarrow> LastIndex s c = int (length s) - 1"
  by (cases s rule: rev_cases) (auto simp: LastIndex_def)

lemma slugify_props:
  "(\<forall>c \<in> set (slugify L d). slugChar c) \<and> length (slugify L d) \<le> 30 \<and>
   (slugify L d \<noteq> [] \<longrightarrow> hd (slugify L d) \<noteq> CHR ''-'' \<and> last (slugify L d) \<noteq> CHR ''-'')"
proof -
  define t where "t = trimHyphens (replaceNonAlnum (L (stripConventionalPrefix d)))"
  have ch: "\<forall>c \<in> set t. slugChar c"
    unfolding t_def using trimHyphens_chars replaceNonAlnum_chars by blast
  have nd: "noDoubleHyphen t"
    unfolding t_def by (simp add: trimHyphens_noDouble replaceNonAlnum_noDouble)
  have ends: "t \<noteq> [] \<longrightarrow> hd t \<noteq> CHR ''-'' \<and> last t \<noteq> CHR ''-''"
    unfolding t_def using trimHyphens_ends by blast
  show ?thesis
  proof (cases "length t > 30")
    case False
    then have "slugify L d = t" by (simp add: slugify_def t_def maxSlugLen_def Let_def)
    with ch ends False show ?thesis by simp
  next
    case True
    define s5 where "s5 = take 30 t"
    define i where "i = LastIndex s5 (CHR ''-'')"
    have len5: "length s5 = 30" using True by (simp add: s5_def)
    have ne5: "s5 \<noteq> []" using len5 by auto
    have hd5: "hd s5 \<noteq> CHR ''-''" using ends True by (cases t) (auto simp: s5_def)
    have ch5: "\<forall>c \<in> set s5. slugChar c" using ch unfolding s5_def by (meson in_set_takeD)
    have nd5: "noDoubleHyphen s5" unfolding s5_def using nd by (rule noDoubleHyphen_take)
    have res: "slugify L d = (if i > 15 then take (nat i) s5 else s5)"
      using True by (simp add: slugify_def t_def [symmetric] maxSlugLen_def Let_def s5_def i_def)
    show ?thesis
    proof (cases "i > 15")
      case False
      have "last s5 \<noteq> CHR ''-''"
      proof
        assume "last s5 = CHR ''-''"
        then have "i = 29" using LastIndex_last [OF ne5] len5 by (simp add: i_def)
        with False show False by simp
      qed
      with False res ch5 hd5 len5 show ?thesis by simp
    next
      case gt: True
      have mem: "CHR ''-'' \<in> set s5"
      proof (rule ccontr)
        assume "CHR ''-'' \<notin> set s5"
        then have "i = - 1" by (simp add: i_def LastIndex_absent)
        with gt show False by simp
      qed
      from LastIndex_present [OF mem]
      have ir: "nat i < length s5" and at: "s5 ! nat i = CHR ''-''" by (simp_all add: i_def)
      define r where "r = take (nat i) s5"
      have rlen: "length r = nat i" using ir by (simp add: r_def)
      have rne: "r \<noteq> []" using rlen gt by auto
      have rhd: "hd r = hd s5" using gt ne5 by (cases s5; cases "nat i") (auto simp: r_def)
      have "last r = s5 ! (nat i - 1)" using rne rlen ir by (simp add: r_def last_conv_nth)
      moreover have "s5 ! (nat i - 1) \<noteq> CHR ''-''"
      proof -
        have "Suc (nat i - 1) < length s5" using ir gt by simp
        then have "s5 ! (nat i - 1) \<noteq> CHR ''-'' \<or> s5 ! Suc (nat i - 1) \<noteq> CHR ''-''"
          using nd5 unfolding noDoubleHyphen_def by blast
        moreover have "Suc (nat i - 1) = nat i" using gt by simp
        ultimately show ?thesis using at by simp
      qed
      ultimately have rlast: "last r \<noteq> CHR ''-''" by simp
      have rch: "\<forall>c \<in> set r. slugChar c" using ch5 unfolding r_def by (meson in_set_takeD)
      have "length r \<le> 30" using rlen ir len5 by simp
      with gt res rch rhd hd5 rlast rne show ?thesis by (simp add: r_def)
    qed
  qed
qed

text \<open>Claim C9. For every description and short change id the generated bookmark name is
  \<open>jip/<slug>/<short_change_id>\<close>, a function of its arguments, where the slug has at most 30
  characters, all of them in \<open>[a-z0-9-]\<close>, neither begins nor ends with a hyphen, and is the
  literal \<open>change\<close> when slugification yields the empty string.\<close>

theorem GenerateBookmarkName_slug:
  "\<exists>slug. GenerateBookmarkName L d sid = ''jip/'' @ slug @ ''/'' @ sid \<and>
     length slug \<le> 30 \<and> (\<forall>c \<in> set slug. slugChar c) \<and>
     slug \<noteq> [] \<and> hd slug \<noteq> CHR ''-'' \<and> last slug \<noteq> CHR ''-'' \<and>
     (slugify L d = [] \<longrightarrow> slug = ''change'') \<and>
     (slugify L d \<noteq> [] \<longrightarrow> slug = slugify L d)"
proof (cases "slugify L d = []")
  case True
  then have "GenerateBookmarkName L d sid = ''jip/'' @ ''change'' @ ''/'' @ sid"
    by (simp add: GenerateBookmarkName_def)
  moreover have "\<forall>c \<in> set ''change''. slugChar c" by (simp add: slugChar_def isLowerAlnum_def)
  ultimately show ?thesis using True by (intro exI [of _ "''change''"]) simp
next
  case False
  then have "GenerateBookmarkName L d sid = ''jip/'' @ slugify L d @ ''/'' @ sid"
    by (simp add: GenerateBookmarkName_def)
  then show ?thesis using False slugify_props [of L d] by (intro exI [of _ "slugify L d"]) simp
qed


theorem GenerateBookmarkName_slug_witness:
  "slugify asciiLower ''fix: ---'' = [] \<and>
   GenerateBookmarkName asciiLower ''fix: ---'' ''kxqzmnop'' = ''jip/change/kxqzmnop'' \<and>
   slugify asciiLower ''feat(api)!: Add  the NEW endpoint for user-profile settings page'' \<noteq> [] \<and>
   GenerateBookmarkName asciiLower
     ''feat(api)!: Add  the NEW endpoint for user-profile settings page'' ''kxqzmnop''
     = ''jip/add-the-new-endpoint-for-user/kxqzmnop''"
proof -
  have e1: "slugify asciiLower ''fix: ---'' = []" by code_simp
  have e2: "slugify asciiLower ''feat(api)!: Add  the NEW endpoint for user-profile settings page''
      = ''add-the-new-endpoint-for-user''" by code_simp
  from GenerateBookmarkName_slug [of asciiLower "''fix: ---''" "''kxqzmnop''"]
  have n1: "GenerateBookmarkName asciiLower ''fix: ---'' ''kxqzmnop'' = ''jip/change/kxqzmnop''"
    using e1 by auto
  from GenerateBookmarkName_slug [of asciiLower
      "''feat(api)!: Add  the NEW endpoint for user-profile settings page''" "''kxqzmnop''"]
  have n2: "GenerateBookmarkName asciiLower
     ''feat(api)!: Add  the NEW endpoint for user-profile settings page'' ''kxqzmnop''
     = ''jip/add-the-new-endpoint-for-user/kxqzmnop''"
    using e2 by auto
  show ?thesis using e1 e2 n1 n2 by simp
qed

section \<open>Collapsing of interdiff sections\<close>

lemma render_fold:
  "fold (\<lambda>f b. b @ renderFile e f) files acc = acc @ concat (map (renderFile e) files)"
  by (induction files arbitrary: acc) simp_all

lemma renderFile_prefix:
  "HasPrefix (renderFile e f) (nl @ (if e then ''<details open>'' else ''<details>'') @ nl)"
  by (cases "diffStats (fd_body f)") (simp add: renderFile_def HasPrefix_def nl_def)

lemma diffStats_loop_le:
  "diffStats_loop ls (a, r) = (a', r') \<Longrightarrow> a' + r' \<le> a + r + length ls"
proof (induction ls arbitrary: a r)
  case Nil
  then show ?case by simp
next
  case (Cons l ls)
  then show ?case by (fastforce split: if_splits)
qed

lemma diffStats_le: "fst (diffStats body) + snd (diffStats body) \<le> length (Split body (CHR 0x0A))"
proof -
  obtain a r where ar: "diffStats_loop (Split body (CHR 0x0A)) (0, 0) = (a, r)"
    by (cases "diffStats_loop (Split body (CHR 0x0A)) (0, 0)") blast
  from diffStats_loop_le [OF ar] show ?thesis by (simp add: diffStats_def ar)
qed

lemma fold_sum_le:
  "a \<le> b \<Longrightarrow>
   fold (\<lambda>f n. n + fst (diffStats (fd_body f)) + snd (diffStats (fd_body f))) files a
     \<le> fold (\<lambda>f n. n + length (Split (fd_body f) (CHR 0x0A))) files (b::nat)"
proof (induction files arbitrary: a b)
  case Nil
  then show ?case by simp
next
  case (Cons f files)
  have "a + fst (diffStats (fd_body f)) + snd (diffStats (fd_body f))
          \<le> b + length (Split (fd_body f) (CHR 0x0A))"
    using Cons.prems diffStats_le [of "fd_body f"] by linarith
  from Cons.IH [OF this] show ?case by simp
qed

lemma changedLines_le_totalLines: "changedLines codeDiff \<le> totalLines (parseGitDiff codeDiff)"
  unfolding changedLines_def totalLines_def by (rule fold_sum_le) simp

text \<open>Claim C8, as amended. For every interdiff that is not all whitespace, the comment is the
  title line, one section per parsed file and the footer; every section opens with
  \<open><details open>\<close> when the total number of lines of the section bodies is at most 20 and with
  \<open><details>\<close> otherwise. The number of added and removed lines never exceeds that total, so more
  than 20 changed lines always collapse the sections.\<close>

theorem BuildDiffComment_collapse_by_total_lines:
  assumes "TrimSpace codeDiff \<noteq> []"
  shows "\<exists>secs.
     BuildDiffComment codeDiff repoName baseBranch oldCommit newCommit =
       ''### Changes since last push'' @ nl @ concat secs
       @ rangeDiffFooter repoName baseBranch oldCommit newCommit \<and>
     length secs = length (parseGitDiff codeDiff) \<and>
     (\<forall>s \<in> set secs. HasPrefix s
        (nl @ (if totalLines (parseGitDiff codeDiff) \<le> collapseThreshold
               then ''<details open>'' else ''<details>'') @ nl)) \<and>
     changedLines codeDiff \<le> totalLines (parseGitDiff codeDiff)"
proof -
  let ?e = "totalLines (parseGitDiff codeDiff) \<le> collapseThreshold"
  let ?secs = "map (renderFile ?e) (parseGitDiff codeDiff)"
  have "BuildDiffComment codeDiff repoName baseBranch oldCommit newCommit =
       ''### Changes since last push'' @ nl @ concat ?secs
       @ rangeDiffFooter repoName baseBranch oldCommit newCommit"
    using assms by (simp add: BuildDiffComment_def Let_def render_fold)
  moreover have "length ?secs = length (parseGitDiff codeDiff)" by simp
  moreover have "\<forall>s \<in> set ?secs. HasPrefix s
        (nl @ (if ?e then ''<details open>'' else ''<details>'') @ nl)"
    using renderFile_prefix by auto
  ultimately show ?thesis using changedLines_le_totalLines by blast
qed

theorem BuildDiffComment_collapse_by_total_lines_witness:
  "TrimSpace diff_small_change \<noteq> [] \<and>
   (\<exists>secs.
     BuildDiffComment diff_small_change ''o/r'' ''main'' ''0123456789'' ''abcdef0123'' =
       ''### Changes since last push'' @ nl @ concat secs
       @ rangeDiffFooter ''o/r'' ''main'' ''0123456789'' ''abcdef0123'' \<and>
     length secs = 1 \<and>
     (\<forall>s \<in> set secs. HasPrefix s (nl @ ''<details>'' @ nl)))"
proof -
  have h: "TrimSpace diff_small_change \<noteq> []" by code_simp
  have f: "length (parseGitDiff diff_small_change) = 1" by code_simp
  have t: "\<not> totalLines (parseGitDiff diff_small_change) \<le> collapseThreshold" by code_simp
  from BuildDiffComment_collapse_by_total_lines [OF h, of "''o/r''" "''main''" "''0123456789''" "''abcdef0123''"]
  obtain secs where
    "BuildDiffComment diff_small_change ''o/r'' ''main'' ''0123456789'' ''abcdef0123'' =
       ''### Changes since last push'' @ nl @ concat secs
       @ rangeDiffFooter ''o/r'' ''main'' ''0123456789'' ''abcdef0123''"
    and "length secs = length (parseGitDiff diff_small_change)"
    and "\<forall>s \<in> set secs. HasPrefix s
        (nl @ (if totalLines (parseGitDiff diff_small_change) \<le> collapseThreshold
               then ''<details open>'' else ''<details>'') @ nl)"
    by blast
  then show ?thesis using h f t by (intro conjI exI [of _ secs]) simp_all
qed

text \<open>Claim C8 as stated fails: a diff with a single added line, hence a sum of changed lines
  of 1, is rendered collapsed, because its section body has 21 lines.\<close>

theorem BuildDiffComment_changed_lines_counterexample:
  "TrimSpace diff_small_change \<noteq> [] \<and>
   changedLines diff_small_change = 1 \<and>
   BuildDiffComment diff_small_change ''o/r'' ''main'' ''0123456789'' ''abcdef0123'' =
     ''### Changes since last push'' @ nl
     @ nl @ ''<details>'' @ nl
     @ ''<summary><code>f.go</code> (+1, -0)</summary>'' @ nl @ nl
     @ ''```diff'' @ nl
     @ ''@@ -1,20 +1,21 @@'' @ nl @ concat (replicate 19 ctx) @ ''+y'' @ nl
     @ ''```'' @ nl @ nl @ ''</details>'' @ nl
     @ rangeDiffFooter ''o/r'' ''main'' ''0123456789'' ''abcdef0123''"
  by code_simp

end
